theory Spec2Isabelle
  imports Main
begin

section \<open>Brute-force graph colouring (brute\_force\_colourings.py)\<close>

text \<open>
  The two exact colouring searches of the repository, embedded function by function.
  Colours, colour counts and candidate indices are Python integers, hence \<open>int\<close>;
  a dictionary is a map; a raised exception is the \<open>Inl\<close> branch of a sum.
\<close>

subsection \<open>Data model\<close>

text \<open>
  The graph object is used through three accessors only: \<open>list(G)\<close> (the vertices, in a
  fixed order), \<open>len(G)\<close> (their number) and \<open>G.edges()\<close> (pairs of vertices).
\<close>

record 'v graph =
  nodes :: "'v list"
  edges :: "('v \<times> 'v) list"

type_synonym 'v colouring = "'v \<rightharpoonup> int"

datatype py_error = IndexError | KeyError | ZeroDivisionError

text \<open>What the graph library guarantees: vertices are dictionary keys, edges join vertices.\<close>

definition wf_graph :: "'v graph \<Rightarrow> bool" where
  "wf_graph G \<longleftrightarrow>
     distinct (nodes G) \<and>
     list_all (\<lambda>e. fst e \<in> set (nodes G) \<and> snd e \<in> set (nodes G)) (edges G)"

definition loop_free :: "'v graph \<Rightarrow> bool" where
  "loop_free G \<longleftrightarrow> list_all (\<lambda>e. fst e \<noteq> snd e) (edges G)"

subsection \<open>Shared functions\<close>

text \<open>
  \<open>validate_colouring\<close>: the loop over the edges; \<open>colouring[v]\<close> on a missing key raises
  KeyError; the first edge with equal colours returns False.
\<close>

fun validate_edges :: "('v \<times> 'v) list \<Rightarrow> 'v colouring \<Rightarrow> py_error + bool" where
  "validate_edges [] colouring = Inr True"
| "validate_edges (edge # rest) colouring =
     (case colouring (fst edge) of
        None \<Rightarrow> Inl KeyError
      | Some a \<Rightarrow>
         (case colouring (snd edge) of
            None \<Rightarrow> Inl KeyError
          | Some b \<Rightarrow> if a = b then Inr False else validate_edges rest colouring))"

definition validate_colouring :: "'v graph \<Rightarrow> 'v colouring \<Rightarrow> py_error + bool" where
  "validate_colouring G colouring = validate_edges (edges G) colouring"

text \<open>
  \<open>colouring_list_to_dict\<close>: the dictionary comprehension over
  \<open>range(len(colouring_list))\<close>; \<open>vertices[counter]\<close> raises IndexError past the end of
  \<open>vertices\<close>, and a repeated key is overwritten.
\<close>

fun dict_comprehension ::
  "int list \<Rightarrow> 'v list \<Rightarrow> nat list \<Rightarrow> 'v colouring \<Rightarrow> py_error + 'v colouring" where
  "dict_comprehension colouring_list vertices [] colouring = Inr colouring"
| "dict_comprehension colouring_list vertices (counter # rest) colouring =
     (if counter < length vertices
      then dict_comprehension colouring_list vertices rest
             (colouring(vertices ! counter \<mapsto> colouring_list ! counter))
      else Inl IndexError)"

definition colouring_list_to_dict :: "int list \<Rightarrow> 'v list \<Rightarrow> py_error + 'v colouring" where
  "colouring_list_to_dict colouring_list vertices =
     dict_comprehension colouring_list vertices [0..<length colouring_list] Map.empty"

subsection \<open>Custom brute force helpers\<close>

text \<open>
  \<open>create_options\<close>: \<open>range(1, colours+1)\<close> followed by \<open>[colours] * (size - len(options_0))\<close>;
  a non-positive multiplier gives the empty list. The parameter \<open>size\<close> is written \<open>sz\<close>.
\<close>

definition create_options :: "int \<Rightarrow> int \<Rightarrow> int list" where
  "create_options colours sz =
     (let options_0 = [1..colours];
          options_1 = replicate (nat (sz - int (length options_0))) colours
      in options_0 @ options_1)"

text \<open>The running product \<open>number_colourings\<close> of \<open>custom_brute_force_colouring\<close>.\<close>

definition number_colourings :: "int list \<Rightarrow> int" where
  "number_colourings options = fold (\<lambda>option acc. acc * option) options 1"

text \<open>
  \<open>colouring_generator\<close>: the loop over \<open>range(len(options)-1, -1, -1)\<close> with the state
  \<open>(colouring_list, colouring_index)\<close>; \<open>%\<close> and \<open>//\<close> are floor division, as \<open>mod\<close> and
  \<open>div\<close> on \<open>int\<close> are, and raise ZeroDivisionError on a zero base.
\<close>

fun generator_loop :: "int list \<Rightarrow> nat list \<Rightarrow> int list \<Rightarrow> int \<Rightarrow> py_error + int list" where
  "generator_loop options [] colouring_list colouring_index = Inr colouring_list"
| "generator_loop options (counter # rest) colouring_list colouring_index =
     (if options ! counter = 0 then Inl ZeroDivisionError
      else generator_loop options rest
             (colouring_list @ [colouring_index mod (options ! counter)])
             (colouring_index div (options ! counter)))"

definition colouring_generator :: "int \<Rightarrow> int list \<Rightarrow> py_error + int list" where
  "colouring_generator colouring_index options =
     (case generator_loop options (rev [0..<length options]) [] colouring_index of
        Inl e \<Rightarrow> Inl e
      | Inr colouring_list \<Rightarrow> Inr (rev colouring_list))"

definition check_all_colours_in_colouring_list :: "int \<Rightarrow> int list \<Rightarrow> bool" where
  "check_all_colours_in_colouring_list colours colouring_list \<longleftrightarrow>
     int (card (set colouring_list)) = colours"

subsection \<open>Product brute force\<close>

text \<open>
  \<open>itertools.product(range(colours), repeat=size)\<close>: all sequences of length \<open>size\<close>, the
  last position varying fastest.
\<close>

definition product_repeat :: "int \<Rightarrow> nat \<Rightarrow> int list list" where
  "product_repeat colours sz = product_lists (replicate sz [0..colours - 1])"

text \<open>
  The \<open>for\<close> loop of one colour count. The second component is what the loop does: an
  error, a returned colouring, or falling through (\<open>Inr None\<close>). The first component is a
  log of the sequences that reached \<open>validate_colouring\<close>, in order.
\<close>

fun product_for ::
  "'v graph \<Rightarrow> 'v list \<Rightarrow> int \<Rightarrow> int list list \<Rightarrow>
   int list list \<times> (py_error + 'v colouring option)" where
  "product_for G vertices colours [] = ([], Inr None)"
| "product_for G vertices colours (colouring_option # rest) =
     (if colours - 1 \<in> set colouring_option
      then (case colouring_list_to_dict colouring_option vertices of
              Inl e \<Rightarrow> ([], Inl e)
            | Inr colouring \<Rightarrow>
               (case validate_colouring G colouring of
                  Inl e \<Rightarrow> ([colouring_option], Inl e)
                | Inr valid \<Rightarrow>
                   if valid then ([colouring_option], Inr (Some colouring))
                   else (let (validated, outcome) = product_for G vertices colours rest
                         in (colouring_option # validated, outcome))))
      else product_for G vertices colours rest)"

text \<open>The \<open>while True\<close> loop: it has no exit but the \<open>return\<close>, so not returning is \<open>None\<close>.\<close>

partial_function (option) product_while ::
  "'v graph \<Rightarrow> nat \<Rightarrow> 'v list \<Rightarrow> int \<Rightarrow> (py_error + 'v colouring) option" where
  "product_while G sz vertices colours =
     (case snd (product_for G vertices colours (product_repeat colours sz)) of
        Inl e \<Rightarrow> Some (Inl e)
      | Inr (Some colouring) \<Rightarrow> Some (Inr colouring)
      | Inr None \<Rightarrow> product_while G sz vertices (colours + 1))"

definition product_brute_force_colouring :: "'v graph \<Rightarrow> (py_error + 'v colouring) option" where
  "product_brute_force_colouring G = product_while G (length (nodes G)) (nodes G) 1"

subsection \<open>Custom brute force\<close>

text \<open>The \<open>for counter in range(number_colourings)\<close> loop of one colour count.\<close>

fun custom_for ::
  "'v graph \<Rightarrow> 'v list \<Rightarrow> int \<Rightarrow> int list \<Rightarrow> int list \<Rightarrow> py_error + 'v colouring option" where
  "custom_for G vertices colours options [] = Inr None"
| "custom_for G vertices colours options (counter # rest) =
     (case colouring_generator counter options of
        Inl e \<Rightarrow> Inl e
      | Inr colouring_list \<Rightarrow>
         if check_all_colours_in_colouring_list colours colouring_list
         then (case colouring_list_to_dict colouring_list vertices of
                 Inl e \<Rightarrow> Inl e
               | Inr colouring \<Rightarrow>
                  (case validate_colouring G colouring of
                     Inl e \<Rightarrow> Inl e
                   | Inr valid \<Rightarrow>
                      if valid then Inr (Some colouring)
                      else custom_for G vertices colours options rest))
         else custom_for G vertices colours options rest)"

text \<open>
  The \<open>while True\<close> loop. It leaves through a \<open>return\<close> of a colouring or, once
  \<open>colours > size\<close>, through \<open>return None\<close> (\<open>Inr None\<close> here). \<open>create_options\<close> raises
  nothing on integers, so the \<open>except\<close> branch has no counterpart.
\<close>

function custom_while ::
  "'v graph \<Rightarrow> int \<Rightarrow> 'v list \<Rightarrow> int \<Rightarrow> py_error + 'v colouring option" where
  "custom_while G sz vertices colours =
     (if colours \<le> sz
      then (let options = create_options colours sz
            in case custom_for G vertices colours options
                      [0..number_colourings options - 1] of
                 Inl e \<Rightarrow> Inl e
               | Inr (Some colouring) \<Rightarrow> Inr (Some colouring)
               | Inr None \<Rightarrow> custom_while G sz vertices (colours + 1))
      else Inr None)"
  by pat_completeness auto
termination
  by (relation "measure (\<lambda>(G, sz, vertices, colours). nat (sz + 1 - colours))") auto

definition custom_brute_force_colouring :: "'v graph \<Rightarrow> py_error + 'v colouring option" where
  "custom_brute_force_colouring G = custom_while G (int (length (nodes G))) (nodes G) 1"

section \<open>Specification notions\<close>

text \<open>
  The digit decomposition in the words of the specification: positions are processed from
  last to first, \<open>digit = index mod bound\<close>, then \<open>index = index div bound\<close>, and the
  collected digits are reversed back into position order.
\<close>

fun digits_last_to_first :: "int \<Rightarrow> int list \<Rightarrow> int list" where
  "digits_last_to_first index [] = []"
| "digits_last_to_first index (bound # bounds) =
     (index mod bound) # digits_last_to_first (index div bound) bounds"

definition mixed_radix_digits :: "int \<Rightarrow> int list \<Rightarrow> int list" where
  "mixed_radix_digits index bounds = rev (digits_last_to_first index (rev bounds))"

text \<open>The number that a digit sequence denotes, both lists given last position first.\<close>

fun value_last_to_first :: "int list \<Rightarrow> int list \<Rightarrow> int" where
  "value_last_to_first (bound # bounds) (digit # digits) =
     digit + bound * value_last_to_first bounds digits"
| "value_last_to_first _ _ = 0"

text \<open>
  A proper colouring gives both ends of every edge a colour, and different ones. A
  \<open>k\<close>-colouring colours exactly the vertices, properly, with at most \<open>k\<close> distinct colours.
\<close>

definition proper :: "'v graph \<Rightarrow> 'v colouring \<Rightarrow> bool" where
  "proper G colouring \<longleftrightarrow>
     (\<forall>e\<in>set (edges G). \<exists>a b. colouring (fst e) = Some a \<and> colouring (snd e) = Some b \<and> a \<noteq> b)"

definition k_colouring :: "'v graph \<Rightarrow> nat \<Rightarrow> 'v colouring \<Rightarrow> bool" where
  "k_colouring G k colouring \<longleftrightarrow>
     dom colouring = set (nodes G) \<and> proper G colouring \<and> card (ran colouring) \<le> k"

text \<open>
  Some sequence that \<open>itertools.product\<close> yields for \<open>k\<close> colours is a proper colouring
  of the graph, read along its vertex order.
\<close>

definition colourable_with :: "'v graph \<Rightarrow> int \<Rightarrow> bool" where
  "colourable_with G k \<longleftrightarrow>
     (\<exists>c. length c = length (nodes G) \<and> set c \<subseteq> {0..k - 1} \<and>
          proper G (map_of (zip (nodes G) c)))"

section \<open>Properties\<close>

subsection \<open>The options vector and the candidate counts\<close>

lemma create_options_length: "0 \<le> k \<Longrightarrow> k \<le> n \<Longrightarrow> length (create_options k n) = nat n"
  by (simp add: create_options_def Let_def)

lemma create_options_nth:
  assumes "0 \<le> k" "k \<le> n" "i < nat n"
  shows "create_options k n ! i = min (int i + 1) k"
proof (cases "i < nat k")
  case True
  then show ?thesis using assms
    by (simp add: create_options_def Let_def nth_append)
next
  case False
  then show ?thesis using assms
    by (simp add: create_options_def Let_def nth_append)
qed

lemma number_colourings_fold:
  "fold (\<lambda>option acc. acc * option) options a = a * prod_list options"
  by (induction options arbitrary: a) (simp_all add: mult.assoc)

lemma number_colourings_prod_list: "number_colourings options = prod_list options"
  by (simp add: number_colourings_def number_colourings_fold)

lemma prod_list_nth: "prod_list xs = (\<Prod>i<length xs. (xs ! i :: int))"
proof (induction xs rule: rev_induct)
  case Nil
  then show ?case by simp
next
  case (snoc x xs)
  have "(\<Prod>i<length xs. (xs @ [x]) ! i) = (\<Prod>i<length xs. xs ! i)"
    by (rule prod.cong) (simp_all add: nth_append)
  with snoc show ?case by simp
qed

lemma prod_list_le_power:
  fixes k :: int
  assumes "\<And>b. b \<in> set xs \<Longrightarrow> 0 \<le> b \<and> b \<le> k"
  shows "prod_list xs \<le> k ^ length xs"
  using assms
proof (induction xs)
  case Nil
  then show ?case by simp
next
  case (Cons a xs)
  have "0 \<le> a" "a \<le> k" using Cons.prems[of a] by simp_all
  moreover have "prod_list xs \<le> k ^ length xs" using Cons by simp
  moreover have "0 \<le> prod_list xs" using Cons.prems by (intro prod_list_nonneg) simp
  ultimately have "a * prod_list xs \<le> k * k ^ length xs"
    by (intro mult_mono) auto
  then show ?case by simp
qed

lemma prod_upto_less_power:
  assumes "2 \<le> k"
  shows "prod_list [1..k] < k ^ nat k"
proof -
  have u: "[1..k] = 1 # [2..k]" using assms by (simp add: upto_rec1)
  have "prod_list [2..k] \<le> k ^ length [2..k]"
    by (rule prod_list_le_power) simp
  moreover have "length [2..k] = nat k - 1" using assms by simp
  ultimately have "prod_list [1..k] \<le> k ^ (nat k - 1)" using u by simp
  also have "\<dots> < k * k ^ (nat k - 1)" using assms by simp
  also have "\<dots> = k ^ Suc (nat k - 1)" by simp
  also have "Suc (nat k - 1) = nat k" using assms by simp
  finally show ?thesis .
qed

lemma foldr_mult_replicate: "foldr (*) (replicate sz (m::nat)) (Suc 0) = m ^ sz"
  by (induction sz) simp_all

lemma length_product_repeat: "0 \<le> k \<Longrightarrow> int (length (product_repeat k sz)) = k ^ sz"
  by (simp add: product_repeat_def length_product_lists foldr_mult_replicate
      del: foldr_replicate)

lemma prod_create_options:
  assumes "0 \<le> k" "k \<le> n"
  shows "prod_list (create_options k n) = prod_list [1..k] * k ^ nat (n - k)"
  using assms by (simp add: create_options_def Let_def)

lemma number_colourings_less:
  assumes "2 \<le> k" "k \<le> n"
  shows "number_colourings (create_options k n) < k ^ nat n"
proof -
  have "prod_list [1..k] * k ^ nat (n - k) < k ^ nat k * k ^ nat (n - k)"
    using prod_upto_less_power[OF assms(1)] assms by (intro mult_strict_right_mono) simp_all
  also have "\<dots> = k ^ (nat k + nat (n - k))" by (simp add: power_add)
  also have "nat k + nat (n - k) = nat n" using assms by simp
  finally show ?thesis using assms
    by (simp add: number_colourings_prod_list prod_create_options)
qed

lemma number_colourings_prod:
  assumes "0 \<le> k" "k \<le> n"
  shows "number_colourings (create_options k n) = (\<Prod>i<nat n. min (int i + 1) k)"
proof -
  have "number_colourings (create_options k n) = (\<Prod>i<nat n. create_options k n ! i)"
    using assms by (simp add: number_colourings_prod_list prod_list_nth create_options_length)
  also have "\<dots> = (\<Prod>i<nat n. min (int i + 1) k)"
    by (rule prod.cong) (simp_all add: create_options_nth assms)
  finally show ?thesis .
qed

text \<open>
  C6: for \<open>2 \<le> k \<le> n\<close> the number of candidates of the constrained search at colour count
  \<open>k\<close>, the product of the entries of \<open>create_options k n\<close>, is the product of
  \<open>min (i+1) k\<close> over the positions and is strictly less than the \<open>k ^ n\<close> candidates that
  \<open>itertools.product\<close> yields for the same \<open>k\<close>.
\<close>

theorem constrained_count_less_than_product_count:
  assumes "2 \<le> k" "k \<le> n"
  shows "number_colourings (create_options k n) = (\<Prod>i<nat n. min (int i + 1) k)
       \<and> int (length (product_repeat k (nat n))) = k ^ nat n
       \<and> number_colourings (create_options k n) < int (length (product_repeat k (nat n)))"
  using assms number_colourings_less[OF assms] number_colourings_prod[of k n]
  by (simp add: length_product_repeat)

theorem constrained_count_less_than_product_count_witness:
  "(2::int) \<le> 3 \<and> (3::int) \<le> 5 \<and>
   number_colourings (create_options 3 5) = 54 \<and>
   int (length (product_repeat 3 (nat 5))) = 243 \<and>
   number_colourings (create_options 3 5) < int (length (product_repeat 3 (nat 5)))"
  using constrained_count_less_than_product_count[of 3 5]
  by (simp add: length_product_repeat number_colourings_def create_options_def upto_rec1
      eval_nat_numeral)

text \<open>
  C7: for \<open>k \<ge> 1\<close> and \<open>n \<ge> k\<close>, \<open>create_options k n\<close> has length \<open>n\<close> and its entry at
  position \<open>i\<close> is \<open>min (i+1) k\<close>; \<open>create_options 3 5\<close> is \<open>[1,2,3,3,3]\<close>, with candidate
  count 54.
\<close>

theorem create_options_bounds:
  assumes "1 \<le> k" "k \<le> n"
  shows "length (create_options k n) = nat n
       \<and> (\<forall>i<nat n. create_options k n ! i = min (int i + 1) k)
       \<and> create_options 3 5 = [1, 2, 3, 3, 3]
       \<and> number_colourings (create_options 3 5) = 54"
proof -
  have "create_options 3 5 = [1, 2, 3, 3, 3]" by code_simp
  moreover have "number_colourings [1, 2, 3, 3, 3] = 54" by (simp add: number_colourings_def)
  ultimately show ?thesis using assms
    by (simp add: create_options_length create_options_nth)
qed

theorem create_options_bounds_witness:
  "(1::int) \<le> 2 \<and> (2::int) \<le> 4 \<and> length (create_options 2 4) = 4
    \<and> create_options 2 4 ! 0 = 1 \<and> create_options 2 4 ! 3 = 2"
  using create_options_bounds[of 2 4] by simp

subsection \<open>The materializer\<close>

lemma dict_comprehension_in_range:
  "\<forall>i\<in>set is. i < length vs \<Longrightarrow>
   dict_comprehension cs vs is m = Inr (m(map ((!) vs) is [\<mapsto>] map ((!) cs) is))"
  by (induction "is" arbitrary: m) simp_all

lemma dict_comprehension_out_of_range:
  "\<exists>i\<in>set is. \<not> i < length vs \<Longrightarrow> dict_comprehension cs vs is m = Inl IndexError"
  by (induction "is" arbitrary: m) auto

lemma map_nth_upt_take: "n \<le> length xs \<Longrightarrow> map ((!) xs) [0..<n] = take n xs"
  by (rule nth_equalityI) simp_all

lemma colouring_list_to_dict_ok:
  assumes "length cs \<le> length vs"
  shows "colouring_list_to_dict cs vs = Inr (Map.empty(take (length cs) vs [\<mapsto>] cs))"
proof -
  have "\<forall>i\<in>set [0..<length cs]. i < length vs" using assms by simp
  from dict_comprehension_in_range[OF this]
  show ?thesis using assms by (simp add: colouring_list_to_dict_def map_nth_upt_take map_nth)
qed

lemma colouring_list_to_dict_error:
  assumes "length vs < length cs"
  shows "colouring_list_to_dict cs vs = Inl IndexError"
proof -
  have "\<exists>i\<in>set [0..<length cs]. \<not> i < length vs" using assms by (intro bexI[of _ "length vs"]) simp_all
  from dict_comprehension_out_of_range[OF this]
  show ?thesis by (simp add: colouring_list_to_dict_def)
qed

lemma map_upds_distinct:
  assumes "length xs = length ys" "distinct xs"
  shows "Map.empty(xs [\<mapsto>] ys) = map_of (zip xs ys)"
  using assms
proof (induction xs ys rule: list_induct2)
  case Nil
  then show ?case by simp
next
  case (Cons x xs y ys)
  then show ?case by (simp add: map_upd_upds_conv_if)
qed

lemma colouring_list_to_dict_distinct:
  assumes "length cs = length vs" "distinct vs"
  shows "colouring_list_to_dict cs vs = Inr (map_of (zip vs cs))"
  using assms by (simp add: colouring_list_to_dict_ok map_upds_distinct)

text \<open>
  C9 (amended): \<open>colouring_list_to_dict\<close> raises IndexError exactly when there are more
  colours than vertices; otherwise it returns a map whose keys are the first
  \<open>len(colouring_list)\<close> vertices and which, the vertices being pairwise different, pairs
  \<open>vertices[i]\<close> with \<open>colouring_list[i]\<close>.
\<close>

theorem colouring_list_to_dict_cases:
  "(length vs < length cs \<longrightarrow> colouring_list_to_dict cs vs = Inl IndexError) \<and>
   (length cs \<le> length vs \<longrightarrow>
      (\<exists>m. colouring_list_to_dict cs vs = Inr m \<and> dom m = set (take (length cs) vs) \<and>
           (distinct vs \<longrightarrow> (\<forall>i<length cs. m (vs ! i) = Some (cs ! i)))))"
proof (intro conjI impI)
  assume "length vs < length cs"
  then show "colouring_list_to_dict cs vs = Inl IndexError"
    by (rule colouring_list_to_dict_error)
next
  assume le: "length cs \<le> length vs"
  let ?m = "Map.empty(take (length cs) vs [\<mapsto>] cs)"
  have 1: "colouring_list_to_dict cs vs = Inr ?m"
    using le by (rule colouring_list_to_dict_ok)
  have 2: "dom ?m = set (take (length cs) vs)"
    using le by (simp add: dom_map_upds)
  have 3: "\<forall>i<length cs. ?m (vs ! i) = Some (cs ! i)" if d: "distinct vs"
  proof (intro allI impI)
    fix i assume i: "i < length cs"
    have "?m = map_of (zip (take (length cs) vs) cs)"
      using le d by (intro map_upds_distinct) simp_all
    moreover have "map_of (zip (take (length cs) vs) cs) (take (length cs) vs ! i) = Some (cs ! i)"
      using le d i by (intro map_of_zip_nth) simp_all
    ultimately show "?m (vs ! i) = Some (cs ! i)" using i by simp
  qed
  show "\<exists>m. colouring_list_to_dict cs vs = Inr m \<and> dom m = set (take (length cs) vs) \<and>
           (distinct vs \<longrightarrow> (\<forall>i<length cs. m (vs ! i) = Some (cs ! i)))"
    using 1 2 3 by blast
qed

text \<open>
  The second half of C9 as stated fails: with fewer colours than vertices the call returns
  a map.
\<close>

theorem colouring_list_to_dict_short_list_counterexample:
  "length [0::int] \<noteq> length [1::nat, 2] \<and>
   colouring_list_to_dict [0] [1::nat, 2] = Inr [1 \<mapsto> 0]"
  by (simp add: colouring_list_to_dict_def)

theorem colouring_list_to_dict_cases_witness:
  "length [1::nat] < length [5::int, 6] \<and> colouring_list_to_dict [5, 6] [1::nat] = Inl IndexError \<and>
   length [5::int, 6] \<le> length [1::nat, 2] \<and> distinct [1::nat, 2] \<and>
   (\<exists>m. colouring_list_to_dict [5, 6] [1::nat, 2] = Inr m \<and> dom m = {1, 2} \<and> m 1 = Some 5 \<and> m 2 = Some 6)"
proof -
  have "\<exists>m. colouring_list_to_dict [5, 6] [1::nat, 2] = Inr m \<and> dom m = set (take (length [5::int, 6]) [1::nat, 2]) \<and>
           (distinct [1::nat, 2] \<longrightarrow> (\<forall>i<length [5::int, 6]. m ([1::nat, 2] ! i) = Some ([5::int, 6] ! i)))"
    using colouring_list_to_dict_cases[of "[1::nat, 2]" "[5, 6]"] by simp
  then obtain m where m: "colouring_list_to_dict [5, 6] [1::nat, 2] = Inr m" "dom m = {1, 2}"
     "\<forall>i<2. m ([1::nat, 2] ! i) = Some ([5::int, 6] ! i)" by auto
  have "m 1 = Some 5" using m(3)[rule_format, of 0] by simp
  moreover have "m 2 = Some 6" using m(3)[rule_format, of 1] by simp
  ultimately show ?thesis using m(1,2) colouring_list_to_dict_cases[of "[1::nat]" "[5, 6]"] by simp
qed

subsection \<open>The digit decomposition\<close>

lemma generator_loop_digits:
  "n \<le> length options \<Longrightarrow> \<forall>i<n. options ! i \<noteq> 0 \<Longrightarrow>
   generator_loop options (rev [0..<n]) acc idx =
     Inr (acc @ digits_last_to_first idx (rev (take n options)))"
proof (induction n arbitrary: acc idx)
  case 0
  then show ?case by simp
next
  case (Suc n)
  then show ?case by (simp add: take_Suc_conv_app_nth)
qed

lemma generator_loop_zero:
  "\<exists>i\<in>set is. options ! i = 0 \<Longrightarrow> generator_loop options is acc idx = Inl ZeroDivisionError"
  by (induction "is" arbitrary: acc idx) auto

lemma colouring_generator_digits:
  assumes "\<forall>b\<in>set options. b \<noteq> 0"
  shows "colouring_generator idx options = Inr (mixed_radix_digits idx options)"
proof -
  have "\<forall>i<length options. options ! i \<noteq> 0" using assms by simp
  then show ?thesis
    using generator_loop_digits[of "length options" options "[]" idx]
    by (simp add: colouring_generator_def mixed_radix_digits_def)
qed

lemma length_digits_last_to_first [simp]: "length (digits_last_to_first idx bs) = length bs"
  by (induction bs arbitrary: idx) simp_all

lemma digits_last_to_first_range:
  "\<forall>b\<in>set bs. 0 < b \<Longrightarrow> i < length bs \<Longrightarrow>
   0 \<le> digits_last_to_first idx bs ! i \<and> digits_last_to_first idx bs ! i < bs ! i"
proof (induction bs arbitrary: idx i)
  case Nil
  then show ?case by simp
next
  case (Cons b bs)
  then show ?case by (cases i) simp_all
qed

lemma value_of_digits:
  "\<forall>b\<in>set bs. 0 < b \<Longrightarrow> 0 \<le> idx \<Longrightarrow> idx < prod_list bs \<Longrightarrow>
   value_last_to_first bs (digits_last_to_first idx bs) = idx"
proof (induction bs arbitrary: idx)
  case Nil
  then show ?case by simp
next
  case (Cons b bs)
  have b: "0 < b" using Cons.prems by simp
  have le: "b * (idx div b) \<le> idx"
    using b mult_div_mod_eq[of b idx] pos_mod_sign[of b idx] by linarith
  have lt: "idx < b * prod_list bs" using Cons.prems by simp
  have "b * (idx div b) < b * prod_list bs" using le lt by linarith
  then have "idx div b < prod_list bs" using b by (simp add: mult_less_cancel_left_pos)
  moreover have "0 \<le> idx div b" using Cons.prems b by (simp add: pos_imp_zdiv_nonneg_iff)
  ultimately have "value_last_to_first bs (digits_last_to_first (idx div b) bs) = idx div b"
    using Cons by simp
  then show ?case by simp
qed

lemma digits_of_value:
  "length ds = length bs \<Longrightarrow> \<forall>i<length bs. 0 \<le> ds ! i \<and> ds ! i < bs ! i \<Longrightarrow>
   digits_last_to_first (value_last_to_first bs ds) bs = ds \<and>
   0 \<le> value_last_to_first bs ds \<and> value_last_to_first bs ds < prod_list bs"
proof (induction ds bs rule: list_induct2)
  case Nil
  then show ?case by simp
next
  case (Cons d ds b bs)
  have d: "0 \<le> d" "d < b" using Cons.prems by auto
  have "\<forall>i<length bs. 0 \<le> ds ! i \<and> ds ! i < bs ! i" using Cons.prems by auto
  with Cons.IH have ih: "digits_last_to_first (value_last_to_first bs ds) bs = ds"
    "0 \<le> value_last_to_first bs ds" "value_last_to_first bs ds < prod_list bs" by simp_all
  let ?v = "value_last_to_first bs ds"
  have "b * ?v \<le> b * (prod_list bs - 1)" using ih d by (intro mult_left_mono) simp_all
  then have "d + b * ?v < b * prod_list bs" using d by (simp add: algebra_simps)
  moreover have "0 \<le> d + b * ?v" using d ih by simp
  moreover have "(d + b * ?v) mod b = d" using d by simp
  moreover have "(d + b * ?v) div b = ?v" using d by simp
  ultimately show ?case using ih by simp
qed

lemma value_last_to_first_snoc:
  "length bs = length ds \<Longrightarrow>
   value_last_to_first (bs @ [b]) (ds @ [d]) = value_last_to_first bs ds + prod_list bs * d"
  by (induction bs ds rule: list_induct2) (simp_all add: algebra_simps)

lemma value_positional:
  "length bs = length ds \<Longrightarrow>
   value_last_to_first (rev bs) (rev ds) = (\<Sum>i<length bs. ds ! i * prod_list (drop (Suc i) bs))"
proof (induction bs ds rule: list_induct2)
  case Nil
  then show ?case by simp
next
  case (Cons b bs d ds)
  then show ?case
    by (simp add: value_last_to_first_snoc sum.lessThan_Suc_shift mult.commute
        del: sum.lessThan_Suc)
qed

text \<open>
  C8: for positive bounds and an index below their product, \<open>colouring_generator\<close> returns
  the mixed-radix digits of the index as the specification describes them; there is one
  digit per position, each below its bound, and the digits denote the index.
  \<open>colouring_generator 5 [1,2,3]\<close> is \<open>[0,1,2]\<close>.
\<close>

theorem colouring_generator_mixed_radix:
  assumes "\<forall>b\<in>set options. 0 < b" "0 \<le> index" "index < prod_list options"
  shows "colouring_generator index options = Inr (mixed_radix_digits index options)
     \<and> length (mixed_radix_digits index options) = length options
     \<and> (\<forall>i<length options. 0 \<le> mixed_radix_digits index options ! i
                            \<and> mixed_radix_digits index options ! i < options ! i)
     \<and> (\<Sum>i<length options. mixed_radix_digits index options ! i * prod_list (drop (Suc i) options)) = index
     \<and> colouring_generator 5 [1, 2, 3] = Inr [0, 1, 2]"
proof -
  let ?ds = "mixed_radix_digits index options"
  have ne: "\<forall>b\<in>set options. b \<noteq> 0" using assms(1) by auto
  have 1: "colouring_generator index options = Inr ?ds"
    using ne by (rule colouring_generator_digits)
  have 2: "length ?ds = length options" by (simp add: mixed_radix_digits_def)
  have 3: "0 \<le> ?ds ! i \<and> ?ds ! i < options ! i" if "i < length options" for i
  proof -
    let ?j = "length options - Suc i"
    have "\<forall>b\<in>set (rev options). 0 < b" using assms(1) by simp
    moreover have "?j < length (rev options)" using that by simp
    ultimately have "0 \<le> digits_last_to_first index (rev options) ! ?j \<and>
       digits_last_to_first index (rev options) ! ?j < rev options ! ?j"
      by (rule digits_last_to_first_range)
    then show ?thesis using that by (simp add: mixed_radix_digits_def rev_nth)
  qed
  have "value_last_to_first (rev options) (rev ?ds) = index"
    using assms value_of_digits[of "rev options" index] by (simp add: mixed_radix_digits_def)
  then have 4: "(\<Sum>i<length options. ?ds ! i * prod_list (drop (Suc i) options)) = index"
    using value_positional[of options ?ds] 2 by simp
  have 5: "colouring_generator 5 [1, 2, 3] = Inr [0, 1, 2]" by code_simp
  show ?thesis using 1 2 3 4 5 by blast
qed

theorem colouring_generator_mixed_radix_witness:
  "(0::int) < 2 \<and> (0::int) < 3 \<and> (0::int) \<le> 4 \<and> (4::int) < prod_list [2, 3] \<and>
   colouring_generator 4 [2, 3] = Inr [1, 1] \<and> mixed_radix_digits 4 [2, 3] = [1, 1]"
  using colouring_generator_mixed_radix[of "[2, 3]" 4] by (simp add: mixed_radix_digits_def)

subsection \<open>The validator and the loops over the candidates\<close>

lemma validate_edges_True_iff:
  "validate_edges es m = Inr True \<longleftrightarrow>
   (\<forall>e\<in>set es. \<exists>a b. m (fst e) = Some a \<and> m (snd e) = Some b \<and> a \<noteq> b)"
  by (induction es) (auto split: option.splits)

lemma validate_colouring_True_iff: "validate_colouring G m = Inr True \<longleftrightarrow> proper G m"
  by (simp add: validate_colouring_def proper_def validate_edges_True_iff)

lemma validate_edges_total:
  "\<forall>e\<in>set es. fst e \<in> dom m \<and> snd e \<in> dom m \<Longrightarrow> \<exists>b. validate_edges es m = Inr b"
  by (induction es) (auto split: option.splits)

lemma validate_colouring_total:
  assumes "wf_graph G" "dom m = set (nodes G)"
  shows "validate_colouring G m = Inr (proper G m)"
proof -
  have "\<forall>e\<in>set (edges G). fst e \<in> dom m \<and> snd e \<in> dom m"
    using assms by (simp add: wf_graph_def list_all_iff)
  then obtain b where b: "validate_edges (edges G) m = Inr b"
    using validate_edges_total by blast
  then have "b = proper G m"
    using validate_colouring_True_iff[of G m] by (auto simp: validate_colouring_def)
  with b show ?thesis by (simp add: validate_colouring_def)
qed

lemma product_for_validated:
  "c \<in> set (fst (product_for G vs k cands)) \<Longrightarrow> c \<in> set cands \<and> k - 1 \<in> set c"
  by (induction cands) (auto split: if_splits sum.splits prod.splits)

lemma product_for_Some:
  "snd (product_for G vs k cands) = Inr (Some m) \<Longrightarrow>
   \<exists>c\<in>set cands. k - 1 \<in> set c \<and> colouring_list_to_dict c vs = Inr m \<and>
      validate_colouring G m = Inr True"
  by (induction cands) (auto split: if_splits sum.splits prod.splits)

lemma custom_for_Some:
  "custom_for G vs k opts idxs = Inr (Some m) \<Longrightarrow>
   \<exists>i\<in>set idxs. \<exists>ds. colouring_generator i opts = Inr ds \<and>
      check_all_colours_in_colouring_list k ds \<and> colouring_list_to_dict ds vs = Inr m \<and>
      validate_colouring G m = Inr True"
  by (induction idxs) (auto split: if_splits sum.splits prod.splits)


lemma product_for_find:
  assumes "wf_graph G" "\<forall>c\<in>set cands. length c = length (nodes G)"
  shows "snd (product_for G (nodes G) k cands) =
     Inr (map_option (\<lambda>c. map_of (zip (nodes G) c))
            (find (\<lambda>c. k - 1 \<in> set c \<and> proper G (map_of (zip (nodes G) c))) cands))"
  using assms(2)
proof (induction cands)
  case Nil
  then show ?case by simp
next
  case (Cons c cands)
  let ?m = "map_of (zip (nodes G) c)"
  have len: "length c = length (nodes G)" using Cons.prems by simp
  have d: "colouring_list_to_dict c (nodes G) = Inr ?m"
    using assms(1) len by (simp add: colouring_list_to_dict_distinct wf_graph_def)
  have "dom ?m = set (nodes G)" using len by (simp add: dom_map_of_zip)
  then have v: "validate_colouring G ?m = Inr (proper G ?m)"
    using assms(1) by (rule validate_colouring_total[rotated])
  have ih: "snd (product_for G (nodes G) k cands) =
     Inr (map_option (\<lambda>c. map_of (zip (nodes G) c))
            (find (\<lambda>c. k - 1 \<in> set c \<and> proper G (map_of (zip (nodes G) c))) cands))"
    using Cons by simp
  show ?case using d v ih by (simp add: case_prod_beta)
qed

lemma custom_for_find:
  assumes "wf_graph G" "length opts = length (nodes G)" "\<forall>b\<in>set opts. b \<noteq> 0"
  shows "custom_for G (nodes G) k opts idxs =
     Inr (map_option (\<lambda>i. map_of (zip (nodes G) (mixed_radix_digits i opts)))
            (find (\<lambda>i. check_all_colours_in_colouring_list k (mixed_radix_digits i opts) \<and>
                        proper G (map_of (zip (nodes G) (mixed_radix_digits i opts)))) idxs))"
proof (induction idxs)
  case Nil
  then show ?case by simp
next
  case (Cons i idxs)
  let ?c = "mixed_radix_digits i opts"
  let ?m = "map_of (zip (nodes G) ?c)"
  have g: "colouring_generator i opts = Inr ?c"
    using assms(3) by (rule colouring_generator_digits)
  have len: "length ?c = length (nodes G)" using assms(2) by (simp add: mixed_radix_digits_def)
  have d: "colouring_list_to_dict ?c (nodes G) = Inr ?m"
    using assms(1) len by (simp add: colouring_list_to_dict_distinct wf_graph_def)
  have "dom ?m = set (nodes G)" using len by (simp add: dom_map_of_zip)
  then have v: "validate_colouring G ?m = Inr (proper G ?m)"
    using assms(1) by (rule validate_colouring_total[rotated])
  show ?case using g d v Cons by simp
qed

subsection \<open>The loops over the colour counts\<close>

lemma product_while_skip:
  "snd (product_for G vs k (product_repeat k n)) = Inr None \<Longrightarrow>
   product_while G n vs k = product_while G n vs (k + 1)"
  by (subst product_while.simps) simp

lemma product_while_hit:
  "snd (product_for G vs k (product_repeat k n)) = Inr (Some m) \<Longrightarrow>
   product_while G n vs k = Some (Inr m)"
  by (subst product_while.simps) simp

lemma product_while_skips:
  "\<forall>j. k \<le> j \<and> j < k0 \<longrightarrow> snd (product_for G vs j (product_repeat j n)) = Inr None \<Longrightarrow>
   k \<le> k0 \<Longrightarrow> product_while G n vs k = product_while G n vs k0"
proof (induction "nat (k0 - k)" arbitrary: k)
  case 0
  then show ?case by simp
next
  case (Suc d)
  have "k < k0" using Suc.hyps(2) by linarith
  then have "product_while G n vs k = product_while G n vs (k + 1)"
    using Suc.prems by (intro product_while_skip) simp
  also have "\<dots> = product_while G n vs k0"
    using Suc.hyps(2) Suc.prems \<open>k < k0\<close> by (intro Suc.hyps(1)) auto
  finally show ?case .
qed

lemma product_while_returns:
  "product_while G n vs k = Some r \<Longrightarrow>
   \<exists>k0\<ge>k. (\<forall>j. k \<le> j \<and> j < k0 \<longrightarrow> snd (product_for G vs j (product_repeat j n)) = Inr None) \<and>
      (case snd (product_for G vs k0 (product_repeat k0 n)) of
         Inl e \<Rightarrow> r = Inl e | Inr None \<Rightarrow> False | Inr (Some m) \<Rightarrow> r = Inr m)"
proof (induction G n vs k r rule: product_while.raw_induct[rotated 1, consumes 1, case_names step])
  case (step pw G n vs k r)
  show ?case
  proof (cases "snd (product_for G vs k (product_repeat k n))")
    case (Inl e)
    with step(2) show ?thesis by (intro exI[of _ k]) auto
  next
    case (Inr outcome)
    show ?thesis
    proof (cases outcome)
      case None
      with Inr step(2) have "pw G n vs (k + 1) = Some r" by simp
      from step(1)[OF this] obtain k0 where k0: "k + 1 \<le> k0"
        "\<forall>j. k + 1 \<le> j \<and> j < k0 \<longrightarrow> snd (product_for G vs j (product_repeat j n)) = Inr None"
        "(case snd (product_for G vs k0 (product_repeat k0 n)) of
         Inl e \<Rightarrow> r = Inl e | Inr None \<Rightarrow> False | Inr (Some m) \<Rightarrow> r = Inr m)" by blast
      have "\<forall>j. k \<le> j \<and> j < k0 \<longrightarrow> snd (product_for G vs j (product_repeat j n)) = Inr None"
      proof (intro allI impI)
        fix j assume "k \<le> j \<and> j < k0"
        then consider "j = k" | "k + 1 \<le> j \<and> j < k0" by linarith
        then show "snd (product_for G vs j (product_repeat j n)) = Inr None"
          using Inr None k0(2) by cases auto
      qed
      with k0 show ?thesis by (intro exI[of _ k0]) auto
    next
      case (Some m)
      with Inr step(2) show ?thesis by (intro exI[of _ k]) auto
    qed
  qed
qed

lemma product_while_diverges:
  assumes "\<forall>j\<ge>k. snd (product_for G vs j (product_repeat j n)) = Inr None"
  shows "product_while G n vs k = None"
proof (rule ccontr)
  assume "product_while G n vs k \<noteq> None"
  then obtain r where "product_while G n vs k = Some r" by auto
  from product_while_returns[OF this] obtain k0 where k0: "k \<le> k0"
    "(case snd (product_for G vs k0 (product_repeat k0 n)) of
         Inl e \<Rightarrow> r = Inl e | Inr None \<Rightarrow> False | Inr (Some m) \<Rightarrow> r = Inr m)" by blast
  from assms k0(1) have "snd (product_for G vs k0 (product_repeat k0 n)) = Inr None" by simp
  with k0(2) show False by simp
qed

lemma custom_while_skip:
  "k \<le> n \<Longrightarrow>
   custom_for G vs k (create_options k n) [0..number_colourings (create_options k n) - 1] = Inr None \<Longrightarrow>
   custom_while G n vs k = custom_while G n vs (k + 1)"
  by (subst custom_while.simps) (simp add: Let_def)

lemma custom_while_hit:
  "k \<le> n \<Longrightarrow>
   custom_for G vs k (create_options k n) [0..number_colourings (create_options k n) - 1] = Inr (Some m) \<Longrightarrow>
   custom_while G n vs k = Inr (Some m)"
  by (subst custom_while.simps) (simp add: Let_def)

lemma custom_while_exhausted: "n < k \<Longrightarrow> custom_while G n vs k = Inr None"
  by (subst custom_while.simps) simp

lemma custom_while_skips:
  "\<forall>j. k \<le> j \<and> j < k0 \<longrightarrow>
     custom_for G vs j (create_options j n) [0..number_colourings (create_options j n) - 1] = Inr None \<Longrightarrow>
   k \<le> k0 \<Longrightarrow> k0 \<le> n + 1 \<Longrightarrow> custom_while G n vs k = custom_while G n vs k0"
proof (induction "nat (k0 - k)" arbitrary: k)
  case 0
  then show ?case by simp
next
  case (Suc d)
  have "k < k0" using Suc.hyps(2) by linarith
  then have "custom_while G n vs k = custom_while G n vs (k + 1)"
    using Suc.prems by (intro custom_while_skip) simp_all
  also have "\<dots> = custom_while G n vs k0"
    using Suc.hyps(2) Suc.prems \<open>k < k0\<close> by (intro Suc.hyps(1)) auto
  finally show ?case .
qed

lemma custom_while_returns:
  "custom_while G n vs k = Inr (Some m) \<Longrightarrow>
   \<exists>k0. k \<le> k0 \<and> k0 \<le> n \<and>
     (\<forall>j. k \<le> j \<and> j < k0 \<longrightarrow>
        custom_for G vs j (create_options j n) [0..number_colourings (create_options j n) - 1] = Inr None) \<and>
     custom_for G vs k0 (create_options k0 n) [0..number_colourings (create_options k0 n) - 1] = Inr (Some m)"
proof (induction G n vs k rule: custom_while.induct)
  case (1 G n vs k)
  let ?round = "\<lambda>j. custom_for G vs j (create_options j n) [0..number_colourings (create_options j n) - 1]"
  have kn: "k \<le> n" using "1.prems" by (subst (asm) custom_while.simps) (simp split: if_splits)
  show ?case
  proof (cases "?round k")
    case (Inl e)
    with kn "1.prems" show ?thesis by (subst (asm) custom_while.simps) (simp add: Let_def)
  next
    case (Inr outcome)
    show ?thesis
    proof (cases outcome)
      case None
      with Inr kn "1.prems" have "custom_while G n vs (k + 1) = Inr (Some m)"
        by (subst (asm) custom_while.simps) (simp add: Let_def)
      with "1.IH"[OF kn refl Inr None] obtain k0 where k0: "k + 1 \<le> k0" "k0 \<le> n"
        "\<forall>j. k + 1 \<le> j \<and> j < k0 \<longrightarrow> ?round j = Inr None" "?round k0 = Inr (Some m)" by blast
      have "\<forall>j. k \<le> j \<and> j < k0 \<longrightarrow> ?round j = Inr None"
      proof (intro allI impI)
        fix j assume "k \<le> j \<and> j < k0"
        then consider "j = k" | "k + 1 \<le> j \<and> j < k0" by linarith
        then show "?round j = Inr None" using Inr None k0(3) by cases auto
      qed
      with k0 show ?thesis by (intro exI[of _ k0]) auto
    next
      case (Some m')
      with Inr kn "1.prems" have "m' = m"
        by (subst (asm) custom_while.simps) (simp add: Let_def)
      with Some Inr kn show ?thesis by (intro exI[of _ k]) auto
    qed
  qed
qed

subsection \<open>The search space and relabelling of colours\<close>

lemma list_all2_replicate_right:
  "list_all2 (\<lambda>x ys. x \<in> set ys) xs (replicate n ys) \<longleftrightarrow> length xs = n \<and> set xs \<subseteq> set ys"
  by (induction n arbitrary: xs) (auto simp: list_all2_Cons2 length_Suc_conv)

lemma set_product_repeat:
  "set (product_repeat k n) = {c. length c = n \<and> set c \<subseteq> {0..k - 1}}"
  by (simp add: product_repeat_def product_lists_set list_all2_replicate_right)

lemma canonical_relabelling:
  fixes c :: "int list"
  shows "\<exists>f. inj_on f (set c) \<and> f ` set c = {0..<int (card (set c))} \<and>
             (\<forall>i<length c. f (c ! i) \<le> int i)"
proof (induction c rule: rev_induct)
  case Nil
  then show ?case by simp
next
  case (snoc x xs)
  then obtain f where f: "inj_on f (set xs)" "f ` set xs = {0..<int (card (set xs))}"
    "\<forall>i<length xs. f (xs ! i) \<le> int i" by blast
  have cl: "card (set xs) \<le> length xs" by (rule card_length)
  show ?case
  proof (cases "x \<in> set xs")
    case True
    then have s: "set (xs @ [x]) = set xs" by auto
    from True have "f x \<in> f ` set xs" by (rule imageI)
    with f(2) have "f x < int (card (set xs))" by simp
    with cl have fx: "f x \<le> int (length xs)" by linarith
    have "f ((xs @ [x]) ! i) \<le> int i" if "i < length (xs @ [x])" for i
    proof (cases "i < length xs")
      case True
      then show ?thesis using f(3) by (simp add: nth_append)
    next
      case False
      with that have "i = length xs" by simp
      then show ?thesis using fx by simp
    qed
    with f(1,2) s show ?thesis by (intro exI[of _ f]) simp
  next
    case False
    define k where "k = int (card (set xs))"
    define g where "g = f(x := k)"
    have gx: "g x = k" by (simp add: g_def)
    have gy: "g y = f y" if "y \<in> set xs" for y using that False by (auto simp: g_def)
    have img: "g ` set xs = f ` set xs" using gy by (intro image_cong) auto
    have notin: "k \<notin> f ` set xs" using f(2) by (simp add: k_def)
    have "inj_on g (set xs) = inj_on f (set xs)"
      using gy by (intro inj_on_cong) auto
    moreover have "set xs - {x} = set xs" using False by simp
    ultimately have "inj_on g (insert x (set xs))"
      using f(1) notin img gx by (simp add: inj_on_insert)
    then have 1: "inj_on g (set (xs @ [x]))" by simp
    have "card (insert x (set xs)) = Suc (card (set xs))" using False by simp
    then have ce: "insert k {0..<k} = {0..<int (card (insert x (set xs)))}"
      by (auto simp: k_def)
    have gi: "g ` insert x (set xs) = insert (g x) (g ` set xs)" by (rule image_insert)
    have "g ` insert x (set xs) = {0..<int (card (insert x (set xs)))}"
      unfolding gi gx img f(2) k_def[symmetric] by (rule ce)
    then have 2: "g ` set (xs @ [x]) = {0..<int (card (set (xs @ [x])))}" by simp
    have 3: "g ((xs @ [x]) ! i) \<le> int i" if "i < length (xs @ [x])" for i
    proof (cases "i < length xs")
      case True
      then show ?thesis using f(3) gy[of "xs ! i"] by (simp add: nth_append)
    next
      case False
      with that have "i = length xs" by simp
      then show ?thesis using cl gx by (simp add: k_def)
    qed
    from 1 2 3 show ?thesis by blast
  qed
qed

lemma map_of_zip_map_right:
  "map_of (zip vs (map f c)) = map_option f \<circ> map_of (zip vs c)"
  by (simp add: zip_map2 map_of_map[symmetric] case_prod_beta' split_def)

lemma map_of_zip_ran: "map_of (zip vs c) v = Some a \<Longrightarrow> a \<in> set c"
  by (meson map_of_SomeD set_zip_rightD)

lemma proper_relabel:
  assumes "inj_on f (set c)"
  shows "proper G (map_of (zip vs (map f c))) = proper G (map_of (zip vs c))"
proof -
  have "(\<exists>a b. (map_option f \<circ> map_of (zip vs c)) (fst e) = Some a \<and>
                (map_option f \<circ> map_of (zip vs c)) (snd e) = Some b \<and> a \<noteq> b) \<longleftrightarrow>
        (\<exists>a b. map_of (zip vs c) (fst e) = Some a \<and> map_of (zip vs c) (snd e) = Some b \<and> a \<noteq> b)"
    for e :: "'a \<times> 'a"
  proof (cases "map_of (zip vs c) (fst e)")
    case None
    then show ?thesis by simp
  next
    case a: (Some a)
    show ?thesis
    proof (cases "map_of (zip vs c) (snd e)")
      case None
      then show ?thesis by simp
    next
      case b: (Some b)
      have "a \<in> set c" "b \<in> set c" using a b by (auto dest: map_of_zip_ran)
      then have "f a = f b \<longleftrightarrow> a = b" using assms by (auto simp: inj_on_def)
      then show ?thesis using a b by simp
    qed
  qed
  then show ?thesis by (simp add: proper_def map_of_zip_map_right)
qed

subsection \<open>The least colour count\<close>

lemma colourable_with_mono:
  assumes "colourable_with G j" "j \<le> k"
  shows "colourable_with G k"
proof -
  from assms(1) obtain c where c: "length c = length (nodes G)" "set c \<subseteq> {0..j - 1}"
    "proper G (map_of (zip (nodes G) c))" unfolding colourable_with_def by blast
  have "{0..j - 1} \<subseteq> {0..k - 1}" using assms(2) by simp
  with c(2) have "set c \<subseteq> {0..k - 1}" by (rule subset_trans)
  with c(1,3) show ?thesis unfolding colourable_with_def by blast
qed

lemma not_colourable_with_nonpositive:
  assumes "nodes G \<noteq> []" "k \<le> 0"
  shows "\<not> colourable_with G k"
proof
  assume "colourable_with G k"
  then obtain c where c: "length c = length (nodes G)" "set c \<subseteq> {0..k - 1}"
    unfolding colourable_with_def by blast
  from assms(2) c(2) have "set c = {}" by auto
  with c(1) assms(1) show False by simp
qed

lemma proper_identity:
  assumes "wf_graph G" "loop_free G"
  shows "proper G (map_of (zip (nodes G) (map int [0..<length (nodes G)])))"
proof -
  let ?vs = "nodes G"
  let ?c = "map int [0..<length ?vs]"
  have d: "distinct ?vs" using assms(1) by (simp add: wf_graph_def)
  have look: "map_of (zip ?vs ?c) (?vs ! i) = Some (int i)" if "i < length ?vs" for i
    using map_of_zip_nth[of ?vs ?c i] d that by simp
  have "\<exists>a b. map_of (zip ?vs ?c) (fst e) = Some a \<and> map_of (zip ?vs ?c) (snd e) = Some b \<and> a \<noteq> b"
    if e: "e \<in> set (edges G)" for e
  proof -
    from e assms(1) have "fst e \<in> set ?vs" "snd e \<in> set ?vs"
      by (auto simp: wf_graph_def list_all_iff)
    then obtain i j where ij: "i < length ?vs" "?vs ! i = fst e" "j < length ?vs" "?vs ! j = snd e"
      by (auto simp: in_set_conv_nth)
    from e assms(2) have "fst e \<noteq> snd e" by (auto simp: loop_free_def list_all_iff)
    with ij have "i \<noteq> j" by auto
    with look[OF ij(1)] look[OF ij(3)] ij show ?thesis by auto
  qed
  then show ?thesis by (simp add: proper_def)
qed

lemma colourable_with_size:
  assumes "wf_graph G" "loop_free G"
  shows "colourable_with G (int (length (nodes G)))"
proof -
  let ?c = "map int [0..<length (nodes G)]"
  have "length ?c = length (nodes G)" by simp
  moreover have "set ?c \<subseteq> {0..int (length (nodes G)) - 1}" by auto
  ultimately show ?thesis
    unfolding colourable_with_def using proper_identity[OF assms] by blast
qed

lemma least_colour_count:
  assumes "wf_graph G" "loop_free G" "nodes G \<noteq> []"
  shows "\<exists>k0. 1 \<le> k0 \<and> k0 \<le> int (length (nodes G)) \<and> colourable_with G k0 \<and>
              (\<forall>j<k0. \<not> colourable_with G j)"
proof -
  define P where "P = (\<lambda>m. colourable_with G (int m))"
  define m where "m = (LEAST m. P m)"
  have Pn: "P (length (nodes G))"
    unfolding P_def using assms(1,2) by (rule colourable_with_size)
  have Pm: "P m" unfolding m_def using Pn by (rule LeastI)
  have le: "m \<le> length (nodes G)" unfolding m_def using Pn by (rule Least_le)
  have "\<not> P 0"
    unfolding P_def using not_colourable_with_nonpositive[OF assms(3), of 0] by simp
  with Pm have "m \<noteq> 0" by (rule_tac notI) simp
  then have pos: "1 \<le> int m" by simp
  have small: "\<not> colourable_with G j" if "j < int m" for j
  proof (cases "j \<le> 0")
    case True
    with assms(3) show ?thesis by (rule not_colourable_with_nonpositive)
  next
    case False
    then have "nat j < m" using that by linarith
    then have "\<not> P (nat j)" unfolding m_def by (rule not_less_Least)
    with False show ?thesis by (simp add: P_def)
  qed
  have "colourable_with G (int m)" using Pm by (simp add: P_def)
  moreover have "int m \<le> int (length (nodes G))" using le by simp
  ultimately show ?thesis using pos small by blast
qed

lemma colourable_with_card:
  assumes "length c = length (nodes G)" "proper G (map_of (zip (nodes G) c))"
  shows "colourable_with G (int (card (set c)))"
proof -
  obtain f where f: "inj_on f (set c)" "f ` set c = {0..<int (card (set c))}"
    using canonical_relabelling[of c] by blast
  have "length (map f c) = length (nodes G)" using assms(1) by simp
  moreover have "set (map f c) \<subseteq> {0..int (card (set c)) - 1}" using f(2) by auto
  moreover have "proper G (map_of (zip (nodes G) (map f c)))"
    using assms(2) proper_relabel[OF f(1)] by blast
  ultimately show ?thesis unfolding colourable_with_def by blast
qed

lemma least_uses_all_colours:
  assumes "\<forall>j<k0. \<not> colourable_with G j" "0 \<le> k0"
    and "length c = length (nodes G)" "set c \<subseteq> {0..k0 - 1}"
    and "proper G (map_of (zip (nodes G) c))"
  shows "set c = {0..k0 - 1}"
proof -
  have "colourable_with G (int (card (set c)))" using assms(3,5) by (rule colourable_with_card)
  with assms(1) have "k0 \<le> int (card (set c))" by (meson not_le)
  moreover have "card {0..k0 - 1} = nat k0" using assms(2) by simp
  ultimately have "card {0..k0 - 1} \<le> card (set c)" using assms(2) by linarith
  then show ?thesis using assms(4) by (intro card_seteq) simp_all
qed

lemma k_colouring_colourable_with:
  assumes "wf_graph G" "k_colouring G k m"
  shows "colourable_with G (int (card (ran m)))"
proof -
  let ?vs = "nodes G"
  let ?c = "map (\<lambda>v. the (m v)) ?vs"
  have dom: "dom m = set ?vs" and pr: "proper G m" using assms(2) by (simp_all add: k_colouring_def)
  have eq: "map_of (zip ?vs ?c) = m"
  proof
    fix v
    show "map_of (zip ?vs ?c) v = m v"
    proof (cases "v \<in> set ?vs")
      case True
      with dom obtain a where "m v = Some a" by auto
      with True show ?thesis by (simp add: map_of_zip_map)
    next
      case False
      with dom have "m v = None" by auto
      with False show ?thesis by (simp add: map_of_zip_map)
    qed
  qed
  have "distinct ?vs" using assms(1) by (simp add: wf_graph_def)
  then have "ran (map_of (zip ?vs ?c)) = set ?c" by (intro ran_map_of_zip) simp_all
  then have "set ?c = ran m" using eq by simp
  moreover have "colourable_with G (int (card (set ?c)))"
    using pr eq by (intro colourable_with_card) simp_all
  ultimately show ?thesis by simp
qed

subsection \<open>The product search returns a least colouring\<close>

lemma product_round_none:
  assumes "wf_graph G" "\<not> colourable_with G j"
  shows "snd (product_for G (nodes G) j (product_repeat j (length (nodes G)))) = Inr None"
proof -
  let ?cands = "product_repeat j (length (nodes G))"
  let ?P = "\<lambda>c. j - 1 \<in> set c \<and> proper G (map_of (zip (nodes G) c))"
  have len: "\<forall>c\<in>set ?cands. length c = length (nodes G)" by (simp add: set_product_repeat)
  have "\<not> ?P c" if "c \<in> set ?cands" for c
  proof
    assume "?P c"
    moreover have "length c = length (nodes G)" "set c \<subseteq> {0..j - 1}"
      using that by (simp_all add: set_product_repeat)
    ultimately have "colourable_with G j" unfolding colourable_with_def by blast
    with assms(2) show False by simp
  qed
  then have "find ?P ?cands = None" by (simp add: find_None_iff)
  with product_for_find[OF assms(1) len, of j] show ?thesis by simp
qed

lemma product_round_some:
  assumes "wf_graph G" "1 \<le> k0" "colourable_with G k0" "\<forall>j<k0. \<not> colourable_with G j"
  shows "\<exists>c. length c = length (nodes G) \<and> set c = {0..k0 - 1} \<and>
             proper G (map_of (zip (nodes G) c)) \<and>
             snd (product_for G (nodes G) k0 (product_repeat k0 (length (nodes G)))) =
               Inr (Some (map_of (zip (nodes G) c)))"
proof -
  let ?cands = "product_repeat k0 (length (nodes G))"
  let ?P = "\<lambda>c. k0 - 1 \<in> set c \<and> proper G (map_of (zip (nodes G) c))"
  have len: "\<forall>c\<in>set ?cands. length c = length (nodes G)" by (simp add: set_product_repeat)
  have k0: "0 \<le> k0" using assms(2) by simp
  from assms(3) obtain c0 where c0: "length c0 = length (nodes G)" "set c0 \<subseteq> {0..k0 - 1}"
    "proper G (map_of (zip (nodes G) c0))" unfolding colourable_with_def by blast
  have "set c0 = {0..k0 - 1}" using assms(4) k0 c0 by (rule least_uses_all_colours)
  then have "k0 - 1 \<in> set c0" using assms(2) by simp
  moreover have "c0 \<in> set ?cands" using c0(1,2) by (simp add: set_product_repeat)
  ultimately have "\<exists>c. c \<in> set ?cands \<and> ?P c" using c0(3) by blast
  then have "find ?P ?cands \<noteq> None" by (simp add: find_None_iff)
  then obtain c1 where f: "find ?P ?cands = Some c1" by blast
  then have "c1 \<in> set ?cands" "?P c1" by (auto simp: find_Some_iff)
  then have c1: "length c1 = length (nodes G)" "set c1 \<subseteq> {0..k0 - 1}"
    "proper G (map_of (zip (nodes G) c1))" by (simp_all add: set_product_repeat)
  have "set c1 = {0..k0 - 1}" using assms(4) k0 c1 by (rule least_uses_all_colours)
  moreover have "snd (product_for G (nodes G) k0 ?cands) = Inr (Some (map_of (zip (nodes G) c1)))"
    using product_for_find[OF assms(1) len, of k0] f by simp
  ultimately show ?thesis using c1(1,3) by blast
qed

lemma product_total:
  assumes "wf_graph G" "loop_free G" "nodes G \<noteq> []"
  shows "\<exists>k0 c. 1 \<le> k0 \<and> k0 \<le> int (length (nodes G)) \<and> (\<forall>j<k0. \<not> colourable_with G j) \<and>
     length c = length (nodes G) \<and> set c = {0..k0 - 1} \<and>
     proper G (map_of (zip (nodes G) c)) \<and>
     (\<forall>j. 1 \<le> j \<and> j < k0 \<longrightarrow>
        snd (product_for G (nodes G) j (product_repeat j (length (nodes G)))) = Inr None) \<and>
     snd (product_for G (nodes G) k0 (product_repeat k0 (length (nodes G)))) =
        Inr (Some (map_of (zip (nodes G) c))) \<and>
     product_brute_force_colouring G = Some (Inr (map_of (zip (nodes G) c)))"
proof -
  from least_colour_count[OF assms] obtain k0 where k0: "1 \<le> k0" "k0 \<le> int (length (nodes G))"
    "colourable_with G k0" "\<forall>j<k0. \<not> colourable_with G j" by blast
  from product_round_some[OF assms(1) k0(1,3,4)] obtain c where c:
    "length c = length (nodes G)" "set c = {0..k0 - 1}" "proper G (map_of (zip (nodes G) c))"
    "snd (product_for G (nodes G) k0 (product_repeat k0 (length (nodes G)))) =
       Inr (Some (map_of (zip (nodes G) c)))" by blast
  have skip: "\<forall>j. 1 \<le> j \<and> j < k0 \<longrightarrow>
        snd (product_for G (nodes G) j (product_repeat j (length (nodes G)))) = Inr None"
    using k0(4) product_round_none[OF assms(1)] by blast
  have "product_while G (length (nodes G)) (nodes G) 1 =
        product_while G (length (nodes G)) (nodes G) k0"
    using skip k0(1) by (rule product_while_skips)
  also have "\<dots> = Some (Inr (map_of (zip (nodes G) c)))"
    using c(4) by (rule product_while_hit)
  finally have "product_brute_force_colouring G = Some (Inr (map_of (zip (nodes G) c)))"
    by (simp add: product_brute_force_colouring_def)
  with k0 c skip show ?thesis by blast
qed

end
